theory Spec2Isabelle
  imports Main
begin

section \<open>Data model (app/hello.go, lines 20-44)\<close>

text \<open>
  Go strings and byte slices are sequences of bytes: both are \<open>string\<close> here, one
  \<open>char\<close> per byte. A struct is a record with the fields of the source, in the source's
  order. The anonymous struct of \<open>Entry.Summary\<close> is the record \<open>Summary\<close>;
  \<open>xml.Name\<close> is the record \<open>Name\<close>.
\<close>

type_synonym bytes = string

record Link =
  Href :: string
  Rel :: string

record Name =
  Space :: string
  Local :: string

record Summary =
  Type :: string
  Body :: string

record Entry =
  Title :: string
  Link :: "Link list"
  Updated :: string
  ID :: string
  Summary :: Summary

record Feed =
  XMLName :: Name
  Lang :: string
  Title :: string
  Link :: "Link list"
  ID :: string
  Updated :: string
  Entry :: "Entry list"


section \<open>The two regular expressions (lines 46-50)\<close>

text \<open>
  Go's \<open>regexp\<close> reads its input rune by rune: a byte below \<open>0x80\<close> is a rune of
  width 1, anything else is decoded by \<open>utf8.DecodeRune\<close>, where an ill-formed sequence is
  the rune \<open>U+FFFD\<close> of width 1. \<open>utf8_first\<close> is the table \<open>first\<close> of
  \<open>unicode/utf8\<close> joined with \<open>acceptRanges\<close>: for a lead byte of a multi-byte
  sequence, the size of the sequence and the range accepted for its second byte;
  \<open>None\<close> for an ASCII byte and for a byte that cannot lead (both have width 1).
\<close>

abbreviation quote :: char where
  "quote \<equiv> CHR 0x22"

abbreviation newline :: char where
  "newline \<equiv> CHR 0x0A"

definition byte :: "char \<Rightarrow> nat" where
  "byte c = of_char c"

definition utf8_first :: "nat \<Rightarrow> (nat \<times> nat \<times> nat) option" where
  "utf8_first p0 =
     (if p0 < 0xC2 then None
      else if p0 < 0xE0 then Some (2, 0x80, 0xBF)
      else if p0 = 0xE0 then Some (3, 0xA0, 0xBF)
      else if p0 < 0xED then Some (3, 0x80, 0xBF)
      else if p0 = 0xED then Some (3, 0x80, 0x9F)
      else if p0 < 0xF0 then Some (3, 0x80, 0xBF)
      else if p0 = 0xF0 then Some (4, 0x90, 0xBF)
      else if p0 < 0xF4 then Some (4, 0x80, 0xBF)
      else if p0 = 0xF4 then Some (4, 0x80, 0x8F)
      else None)"

text \<open>The width that \<open>utf8.DecodeRune\<close> returns, with the checks in its order.\<close>

definition DecodeRune_size :: "string \<Rightarrow> nat" where
  "DecodeRune_size p =
     (let n = length p in
      if n < 1 then 0
      else (case utf8_first (byte (p ! 0)) of
              None \<Rightarrow> 1
            | Some (sz, lo, hi) \<Rightarrow>
                if n < sz then 1
                else if byte (p ! 1) < lo \<or> hi < byte (p ! 1) then 1
                else if sz \<le> 2 then 2
                else if byte (p ! 2) < 0x80 \<or> 0xBF < byte (p ! 2) then 1
                else if sz \<le> 3 then 3
                else if byte (p ! 3) < 0x80 \<or> 0xBF < byte (p ! 3) then 1
                else 4))"

text \<open>
  A literal of the pattern, matched at the head of the input: the rest of the input
  after it, or \<open>None\<close>.
\<close>

fun literal :: "string \<Rightarrow> string \<Rightarrow> string option" where
  "literal [] s = Some s"
| "literal (c # cs) [] = None"
| "literal (c # cs) (d # ds) = (if c = d then literal cs ds else None)"

text \<open>
  The pattern \<open>.\<close> without the flag \<open>s\<close>: one rune other than the newline.
  The decoded rune is \<open>U+000A\<close> exactly when the first byte is \<open>0x0A\<close>: every
  other byte decodes to itself, to a code point from \<open>0x80\<close> on, or to \<open>U+FFFD\<close>.
\<close>

definition anyCharNotNL :: "string \<Rightarrow> string option" where
  "anyCharNotNL s =
     (if s = [] then None
      else if hd s = newline then None
      else Some (drop (DecodeRune_size s) s))"

text \<open>
  The pattern \<open>[^"]*\<close>: the greedy run of runes other than the double quote. The
  result is the input that is left. Giving a rune of the run back cannot make the
  following \<open>"\<close> of the pattern match, so the greedy run is the only candidate.
\<close>

function notQuoteStar :: "string \<Rightarrow> string" where
  "notQuoteStar s =
     (if s = [] \<or> hd s = quote then s
      else notQuoteStar (drop (DecodeRune_size s) s))"
  by pat_completeness auto
termination
proof (relation "measure length")
  show "wf (measure length)" by simp
next
  fix s :: string
  assume a: "\<not> (s = [] \<or> hd s = quote)"
  then have "0 < DecodeRune_size s"
    by (auto simp: DecodeRune_size_def Let_def split: option.splits)
  with a show "(drop (DecodeRune_size s) s, s) \<in> measure length"
    by simp
qed

text \<open>
  \<open>altExp = regexp.MustCompile(`alt="[^"]*"`)\<close> anchored at the head of the input:
  the input left after the match.
\<close>

definition altExp_match :: "string \<Rightarrow> string option" where
  "altExp_match s =
     (case literal (''alt='' @ [quote]) s of
        None \<Rightarrow> None
      | Some r \<Rightarrow> literal [quote] (notQuoteStar r))"

text \<open>
  \<open>altExp.FindString\<close>: the text of the leftmost match, the empty string when there
  is none.
\<close>

fun altExp_FindString :: "string \<Rightarrow> string" where
  "altExp_FindString s =
     (case altExp_match s of
        Some rest \<Rightarrow> take (length s - length rest) s
      | None \<Rightarrow> (case s of [] \<Rightarrow> [] | c # cs \<Rightarrow> altExp_FindString cs))"

text \<open>
  The part \<open>xkcd.com\<close> of \<open>httpExp\<close>: its dot is not escaped and matches any rune
  but the newline.
\<close>

definition xkcd_com :: "string \<Rightarrow> string option" where
  "xkcd_com r =
     (case literal ''xkcd'' r of
        None \<Rightarrow> None
      | Some r2 \<Rightarrow>
          (case anyCharNotNL r2 of
             None \<Rightarrow> None
           | Some r3 \<Rightarrow> literal ''com'' r3))"

text \<open>
  \<open>httpExp = regexp.MustCompile(`http://(imgs\.)?xkcd.com`)\<close> anchored at the head of
  the input: the text of group 1 (empty when the group took no part) and the input
  left after the match. The group is tried first; without it the match is tried again.
\<close>

definition httpExp_match :: "string \<Rightarrow> (string \<times> string) option" where
  "httpExp_match s =
     (case literal ''http://'' s of
        None \<Rightarrow> None
      | Some r \<Rightarrow>
          (case (case literal ''imgs.'' r of None \<Rightarrow> None | Some r1 \<Rightarrow> xkcd_com r1) of
             Some rest \<Rightarrow> Some (''imgs.'', rest)
           | None \<Rightarrow>
               (case xkcd_com r of
                  Some rest \<Rightarrow> Some ([], rest)
                | None \<Rightarrow> None)))"

text \<open>\<open>httpsReplacement = []byte("https://${1}xkcd.com")\<close>, expanded with group 1.\<close>

definition httpsReplacement :: "string \<Rightarrow> bytes" where
  "httpsReplacement g = ''https://'' @ g @ ''xkcd.com''"

text \<open>
  \<open>httpExp.ReplaceAll(b, httpsReplacement)\<close>: the matches are found from left to right,
  each search starting where the last match ended; the bytes between matches are
  copied. No match of \<open>httpExp\<close> is empty, so the special case of an empty match
  never applies.
\<close>

function httpExp_ReplaceAll :: "bytes \<Rightarrow> bytes" where
  "httpExp_ReplaceAll s =
     (case httpExp_match s of
        Some (g, rest) \<Rightarrow> httpsReplacement g @ httpExp_ReplaceAll rest
      | None \<Rightarrow> (case s of [] \<Rightarrow> [] | c # cs \<Rightarrow> c # httpExp_ReplaceAll cs))"
  by pat_completeness auto
termination
proof (relation "measure length")
  show "wf (measure length)" by simp
next
  fix s g rest x
  assume m: "httpExp_match s = Some x" and x: "(g, rest) = x"
  have lit: "t = p @ r" if "literal p t = Some r" for p t r
    using that by (induction p t rule: literal.induct) (auto split: if_splits)
  have dot: "length r \<le> length t" if "anyCharNotNL t = Some r" for t r
    using that by (auto simp: anyCharNotNL_def split: if_splits)
  have tail: "length r \<le> length t" if "xkcd_com t = Some r" for t r
    using that unfolding xkcd_com_def
    by (auto split: option.splits dest!: lit dot)
  have "length rest < length s"
    using m x [symmetric] unfolding httpExp_match_def
    by (auto split: option.splits dest!: lit tail)
  then show "(rest, s) \<in> measure length" by simp
next
  fix s c cs
  assume "s = c # cs"
  then show "(cs, s) \<in> measure length" by simp
qed


section \<open>Caption extraction (lines 52-58)\<close>

text \<open>
  The slice expression \<open>s[lo:hi]\<close>. Go panics unless \<open>lo \<le> hi \<le> len(s)\<close>; the
  one slice of the program is in range at every input (lemma \<open>AltText_slice_in_range\<close>).
\<close>

definition slice :: "string \<Rightarrow> nat \<Rightarrow> nat \<Rightarrow> string" where
  "slice s lo hi = take (hi - lo) (drop lo s)"

text \<open>\<open>AltText\<close> reads the entry and assigns nothing: it is a function of the entry.\<close>

definition AltText :: "Entry \<Rightarrow> string" where
  "AltText e =
     (let s = altExp_FindString (Summary.Body (Entry.Summary e)) in
      if s = [] then s
      else slice s 5 (length s - 1))"


section \<open>Errors\<close>

text \<open>
  The error values the program returns, one constructor for each place that makes
  one, with the message of the underlying error where the source wraps it:
  \<^item> \<open>TransportError\<close>: the error of \<open>client.Get\<close>, returned as it is (line 69);
  \<^item> \<open>UpstreamStatusError\<close>: \<open>errors.New("http request was not OK")\<close> (line 72);
  \<^item> \<open>BodyReadError\<close>: \<open>"failed to read response: %v"\<close> (line 77);
  \<^item> \<open>ParseError\<close>: \<open>"failed to unmarshal feed: %v"\<close> (line 82);
  \<^item> \<open>CacheCorruptionError\<close>: \<open>"failed to unmarshal cached feed: %v"\<close> (line 110).
  \<open>Error\<close> is the method \<open>Error()\<close>: the message.
\<close>

datatype error =
    TransportError string
  | UpstreamStatusError
  | BodyReadError string
  | ParseError string
  | CacheCorruptionError string

fun Error :: "error \<Rightarrow> string" where
  "Error (TransportError e) = e"
| "Error UpstreamStatusError = ''http request was not OK''"
| "Error (BodyReadError e) = ''failed to read response: '' @ e"
| "Error (ParseError e) = ''failed to unmarshal feed: '' @ e"
| "Error (CacheCorruptionError e) = ''failed to unmarshal cached feed: '' @ e"


section \<open>The packages and services the program calls\<close>

text \<open>
  What \<open>client.Get\<close> returns when it returns no error: the status code and what
  \<open>ioutil.ReadAll(resp.Body)\<close> gives, the bytes or the message of a read error.
\<close>

record Response =
  StatusCode :: int
  Body :: "string + bytes"

text \<open>\<open>memcache.Item\<close>, with the fields the program sets; \<open>Expiration\<close> in nanoseconds.\<close>

record Item =
  Key :: string
  Value :: bytes
  Expiration :: nat

record pageEntry =
  Title :: string
  Img :: string
  Text :: string

text \<open>
  The functions of \<open>encoding/xml\<close>, \<open>html\<close> and \<open>html/template\<close> are parameters of
  the model: a result is a value or the message of the error. \<open>template_Execute\<close> gives
  the bytes the template wrote and the error that stopped it, if any.
\<close>

record env =
  xml_Unmarshal :: "bytes \<Rightarrow> string + Feed"
  xml_Marshal :: "Feed \<Rightarrow> string + bytes"
  html_UnescapeString :: "string \<Rightarrow> string"
  template_Execute :: "pageEntry list \<Rightarrow> bytes \<times> string option"

text \<open>
  The state outside the program that one request reads and writes:
  \<^item> \<open>memcache\<close>: the entries of the cache service, each with the instant of its store;
  \<^item> \<open>clock\<close>: the instant of the request, in nanoseconds;
  \<^item> \<open>memcache_Get_fault\<close>, \<open>memcache_Set_fault\<close>: the error with which the cache
    service answers this request's lookup or store, if it fails;
  \<^item> \<open>upstream\<close>: what the network answers to a GET of a URL;
  \<^item> \<open>logs\<close>: the lines written with \<open>ctx.Infof\<close>;
  \<^item> \<open>requests\<close>: the URLs fetched with \<open>client.Get\<close>, in order.
\<close>

record world =
  memcache :: "string \<Rightarrow> (Item \<times> nat) option"
  clock :: nat
  memcache_Get_fault :: "string option"
  memcache_Set_fault :: "string option"
  upstream :: "string \<Rightarrow> string + Response"
  logs :: "string list"
  requests :: "string list"

definition Second :: nat where
  "Second = 1000000000"

definition Minute :: nat where
  "Minute = 60 * Second"

definition ErrCacheMiss :: string where
  "ErrCacheMiss = ''memcache: cache miss''"

text \<open>
  Modelled from the spec: the cache store (package \<open>appengine/memcache\<close>, which is not
  part of the sources). Section 6 gives it the operations \<open>get(key) -> bytes | miss\<close>
  and \<open>set(key, bytes, ttl)\<close>, section 3 says that an entry "expires autonomously after
  a fixed duration" and is "never explicitly invalidated otherwise". An entry is
  expired once its full duration has passed since the store; the duration zero means
  no expiration. A lookup that the service fails returns that error.
\<close>

definition memcache_Get :: "world \<Rightarrow> string \<Rightarrow> string + Item" where
  "memcache_Get w key =
     (case memcache_Get_fault w of
        Some err \<Rightarrow> Inl err
      | None \<Rightarrow>
          (case memcache w key of
             None \<Rightarrow> Inl ErrCacheMiss
           | Some (item, stored) \<Rightarrow>
               if Expiration item \<noteq> 0 \<and> stored + Expiration item \<le> clock w
               then Inl ErrCacheMiss
               else Inr item))"

text \<open>
  Modelled from the spec: \<open>set(key, bytes, ttl)\<close> of the same cache store. A store that
  the service fails returns the error and leaves the cache as it was.
\<close>

definition memcache_Set :: "world \<Rightarrow> Item \<Rightarrow> string option \<times> world" where
  "memcache_Set w item =
     (case memcache_Set_fault w of
        Some err \<Rightarrow> (Some err, w)
      | None \<Rightarrow> (None, w\<lparr>memcache := (memcache w)(Key item \<mapsto> (item, clock w))\<rparr>))"

definition Infof :: "world \<Rightarrow> string \<Rightarrow> world" where
  "Infof w msg = w\<lparr>logs := logs w @ [msg]\<rparr>"

definition client_Get :: "world \<Rightarrow> string \<Rightarrow> (string + Response) \<times> world" where
  "client_Get w url = (upstream w url, w\<lparr>requests := requests w @ [url]\<rparr>)"

definition StatusOK :: int where
  "StatusOK = 200"

definition StatusInternalServerError :: int where
  "StatusInternalServerError = 500"


section \<open>The upstream fetcher (lines 65-85)\<close>

definition upstreamURL :: string where
  "upstreamURL = ''https://xkcd.com/atom.xml''"

definition getUpstreamAtom :: "env \<Rightarrow> world \<Rightarrow> (error + Feed) \<times> world" where
  "getUpstreamAtom env w =
     (case client_Get w upstreamURL of
        (Inl err, w1) \<Rightarrow> (Inl (TransportError err), w1)
      | (Inr resp, w1) \<Rightarrow>
          if StatusCode resp \<noteq> StatusOK then (Inl UpstreamStatusError, w1)
          else
            (case Response.Body resp of
               Inl err \<Rightarrow> (Inl (BodyReadError err), w1)
             | Inr b \<Rightarrow>
                 (case xml_Unmarshal env (httpExp_ReplaceAll b) of
                    Inl err \<Rightarrow> (Inl (ParseError err), w1)
                  | Inr feed \<Rightarrow> (Inr feed, w1))))"


section \<open>The caching orchestrator (lines 87-113)\<close>

definition atomKey :: string where
  "atomKey = ''/xkcd.atom''"

definition cachingGetUpstreamAtom :: "env \<Rightarrow> world \<Rightarrow> (error + Feed) \<times> world" where
  "cachingGetUpstreamAtom env w =
     (case memcache_Get w atomKey of
        Inl err \<Rightarrow>
          (case getUpstreamAtom env (Infof w ''making request to xkcd.com'') of
             (Inl err, w2) \<Rightarrow> (Inl err, w2)
           | (Inr feed, w2) \<Rightarrow>
               (case xml_Marshal env feed of
                  Inr b \<Rightarrow>
                    (Inr feed,
                     snd (memcache_Set w2
                            \<lparr>Key = atomKey, Value = b, Expiration = 5 * Minute\<rparr>))
                | Inl err \<Rightarrow> (Inr feed, w2)))
      | Inr item \<Rightarrow>
          (case xml_Unmarshal env (Value item) of
             Inl err \<Rightarrow> (Inl (CacheCorruptionError err), Infof w ''found feed in cache'')
           | Inr feed \<Rightarrow> (Inr feed, Infof w ''found feed in cache'')))"


section \<open>The presentation adapters (lines 115-189)\<close>

text \<open>
  The \<open>http.ResponseWriter\<close>: the content type set in the header, the status once it
  is written (the first write sends 200 unless a status was written before), and the
  bytes of the body. \<open>http.Error\<close> sets the content type, writes the status and prints
  the message and a newline.
\<close>

record ResponseWriter =
  ContentType :: string
  status :: "int option"
  written :: bytes

definition NewResponseWriter :: ResponseWriter where
  "NewResponseWriter = \<lparr>ContentType = [], status = None, written = []\<rparr>"

definition WriteHeader :: "ResponseWriter \<Rightarrow> int \<Rightarrow> ResponseWriter" where
  "WriteHeader rw code = (case status rw of None \<Rightarrow> rw\<lparr>status := Some code\<rparr> | Some c \<Rightarrow> rw)"

definition Write :: "ResponseWriter \<Rightarrow> bytes \<Rightarrow> ResponseWriter" where
  "Write rw b = (WriteHeader rw StatusOK)\<lparr>written := written rw @ b\<rparr>"

definition http_Error :: "ResponseWriter \<Rightarrow> string \<Rightarrow> int \<Rightarrow> ResponseWriter" where
  "http_Error rw msg code =
     Write (WriteHeader (rw\<lparr>ContentType := ''text/plain; charset=utf-8''\<rparr>) code)
       (msg @ [newline])"

definition xml_Header :: string where
  "xml_Header = ''<?xml version='' @ [quote] @ ''1.0'' @ [quote] @ '' encoding='' @ [quote]
     @ ''UTF-8'' @ [quote] @ ''?>'' @ [newline]"

text \<open>
  One turn of the loop of \<open>atomHandler\<close> (line 123): the assignment to
  \<open>feed.Entry[i].Summary.Body\<close>, whose right-hand side reads the body as it was.
\<close>

definition appendAltText :: "Entry \<Rightarrow> Entry" where
  "appendAltText e =
     e\<lparr>Entry.Summary :=
         (Entry.Summary e)\<lparr>Summary.Body :=
            Summary.Body (Entry.Summary e) @ [newline] @ AltText e\<rparr>\<rparr>"

text \<open>
  The loop of lines 122-124 on the feed that \<open>feed\<close> points to: the result is that
  feed after the loop.
\<close>

definition atomHandler_loop :: "Feed \<Rightarrow> Feed" where
  "atomHandler_loop feed =
     fold (\<lambda>i f. f\<lparr>Feed.Entry := (Feed.Entry f)[i := appendAltText (Feed.Entry f ! i)]\<rparr>)
       [0..<length (Feed.Entry feed)] feed"

text \<open>
  \<open>atomHandler\<close>: the response, the feed that \<open>feed\<close> points to when the handler
  returns (\<open>None\<close> when the orchestrator returned no feed), and the state outside.
\<close>

definition atomHandler :: "env \<Rightarrow> world \<Rightarrow> ResponseWriter \<times> Feed option \<times> world" where
  "atomHandler env w =
     (case cachingGetUpstreamAtom env w of
        (Inl err, w1) \<Rightarrow>
          (http_Error NewResponseWriter (''failed to get upstream atom: '' @ Error err)
             StatusInternalServerError, None, w1)
      | (Inr feed, w1) \<Rightarrow>
          (let feed1 = atomHandler_loop feed in
           case xml_Marshal env feed1 of
             Inl err \<Rightarrow>
               (http_Error NewResponseWriter ''failed to marshal feed''
                  StatusInternalServerError, Some feed1, w1)
           | Inr b \<Rightarrow>
               (Write (Write (NewResponseWriter\<lparr>ContentType := ''application/atom+xml''\<rparr>)
                         xml_Header) b,
                Some feed1, w1)))"

text \<open>The loop of lines 177-185: it reads the feed and appends to \<open>entries\<close>.\<close>

definition mainHandler_loop :: "env \<Rightarrow> Feed \<Rightarrow> pageEntry list" where
  "mainHandler_loop env feed =
     fold (\<lambda>i entries. entries @
             [\<lparr>pageEntry.Title = Entry.Title (Feed.Entry feed ! i),
               Img = html_UnescapeString env (Summary.Body (Entry.Summary (Feed.Entry feed ! i))),
               Text = html_UnescapeString env (AltText (Feed.Entry feed ! i))\<rparr>])
       [0..<length (Feed.Entry feed)] []"

text \<open>
  \<open>mainHandler\<close>, with the same three results as \<open>atomHandler\<close>. No statement of
  the handler assigns to the feed.
\<close>

definition mainHandler :: "env \<Rightarrow> world \<Rightarrow> ResponseWriter \<times> Feed option \<times> world" where
  "mainHandler env w =
     (case cachingGetUpstreamAtom env w of
        (Inl err, w1) \<Rightarrow>
          (http_Error NewResponseWriter (''failed to get upstream atom: '' @ Error err)
             StatusInternalServerError, None, w1)
      | (Inr feed, w1) \<Rightarrow>
          (case template_Execute env (mainHandler_loop env feed) of
             (out, Some err) \<Rightarrow>
               (http_Error (if out = [] then NewResponseWriter else Write NewResponseWriter out)
                  ''failed to execute template'' StatusInternalServerError,
                Some feed, w1)
           | (out, None) \<Rightarrow>
               ((if out = [] then NewResponseWriter else Write NewResponseWriter out),
                Some feed, w1)))"


section \<open>The words of the contracts\<close>

text \<open>
  The words of the contract of the caption extractor: an occurrence of the pattern
  \<open>alt="<value>"\<close> in a body, where the value has no double quote, and the first
  occurrence, the one that starts leftmost.
\<close>

definition alt_occurrence :: "string \<Rightarrow> string \<Rightarrow> string \<Rightarrow> string \<Rightarrow> bool" where
  "alt_occurrence body pre v post \<longleftrightarrow>
     body = pre @ ''alt='' @ [quote] @ v @ [quote] @ post \<and> quote \<notin> set v"

definition first_alt_occurrence :: "string \<Rightarrow> string \<Rightarrow> string \<Rightarrow> string \<Rightarrow> bool" where
  "first_alt_occurrence body pre v post \<longleftrightarrow>
     alt_occurrence body pre v post \<and>
     (\<forall>pre' v' post'. alt_occurrence body pre' v' post' \<longrightarrow> length pre \<le> length pre')"

text \<open>
  Bytes that hold only secure references, in the words of the contract of the link
  rewriter: \<open>httpExp\<close> matches at no position.
\<close>

fun secure_only :: "bytes \<Rightarrow> bool" where
  "secure_only [] = True"
| "secure_only (c # cs) = (httpExp_match (c # cs) = None \<and> secure_only cs)"


section \<open>Inputs for the examples\<close>

definition example_entry :: "string \<Rightarrow> Entry" where
  "example_entry b =
     \<lparr>Entry.Title = ''Comic'', Link = [\<lparr>Href = ''https://xkcd.com/1/'', Rel = ''alternate''\<rparr>],
      Updated = ''2015-01-01T00:00:00Z'', ID = ''https://xkcd.com/1/'',
      Summary = \<lparr>Type = ''html'', Body = b\<rparr>\<rparr>"

definition example_feed :: Feed where
  "example_feed =
     \<lparr>XMLName = \<lparr>Space = ''http://www.w3.org/2005/Atom'', Local = ''feed''\<rparr>,
      Lang = ''en'', Title = ''xkcd.com'',
      Link = [\<lparr>Href = ''https://xkcd.com/'', Rel = ''alternate''\<rparr>],
      ID = ''https://xkcd.com/'', Updated = ''2015-01-01T00:00:00Z'',
      Entry = [example_entry (''<img alt='' @ [quote] @ ''hi'' @ [quote] @ ''/>'')]\<rparr>"

text \<open>
  The bytes of \<open>example_feed\<close> as a feed document, and the same bytes cut off in the
  first tag. The functions of \<open>encoding/xml\<close> in the examples are given on these
  inputs only: \<open>xml.Unmarshal\<close> reads \<open>example_bytes\<close> as \<open>example_feed\<close> and
  fails on anything else.
\<close>

definition quoted :: "string \<Rightarrow> string" where
  "quoted s = [quote] @ s @ [quote]"

definition example_bytes :: bytes where
  "example_bytes =
     ''<feed xmlns='' @ quoted ''http://www.w3.org/2005/Atom'' @ '' xml:lang='' @ quoted ''en''
     @ ''><title>xkcd.com</title><link href='' @ quoted ''https://xkcd.com/''
     @ '' rel='' @ quoted ''alternate'' @ ''></link><id>https://xkcd.com/</id>''
     @ ''<updated>2015-01-01T00:00:00Z</updated><entry><title>Comic</title><link href=''
     @ quoted ''https://xkcd.com/1/'' @ '' rel='' @ quoted ''alternate''
     @ ''></link><updated>2015-01-01T00:00:00Z</updated><id>https://xkcd.com/1/</id>''
     @ ''<summary type='' @ quoted ''html'' @ ''><img alt='' @ quoted ''hi''
     @ ''/></summary></entry></feed>''"

definition example_truncated :: bytes where
  "example_truncated = ''<feed xmlns=''"

definition example_env :: "(Feed \<Rightarrow> string + bytes) \<Rightarrow> env" where
  "example_env marshal =
     \<lparr>xml_Unmarshal =
        (\<lambda>b. if b = example_bytes then Inr example_feed
             else Inl ''XML syntax error on line 1: unexpected EOF''),
      xml_Marshal = marshal,
      html_UnescapeString = (\<lambda>s. s),
      template_Execute = (\<lambda>es. (''<!doctype html>'', None))\<rparr>"

definition example_world :: "string option \<Rightarrow> (string + Response) \<Rightarrow> world" where
  "example_world fault r =
     \<lparr>memcache = Map.empty, clock = 0, memcache_Get_fault = None,
      memcache_Set_fault = fault,
      upstream = (\<lambda>url. r), logs = [], requests = []\<rparr>"

definition example_cached :: "bytes \<Rightarrow> nat \<Rightarrow> world" where
  "example_cached b t =
     \<lparr>memcache = [atomKey \<mapsto> (\<lparr>Key = atomKey, Value = b, Expiration = 5 * Minute\<rparr>, 0)],
      clock = t, memcache_Get_fault = None, memcache_Set_fault = None,
      upstream = (\<lambda>url. Inl ''urlfetch: deadline exceeded''), logs = [], requests = []\<rparr>"

definition example_body :: string where
  "example_body = ''foo <img alt='' @ [quote] @ ''bar'' @ [quote] @ '' src='' @ [quote] @ ''x''
     @ [quote] @ ''> baz''"

definition example_two_alts :: string where
  "example_two_alts = ''<img alt='' @ [quote] @ ''one'' @ [quote] @ '' alt='' @ [quote]
     @ ''two'' @ [quote] @ ''>''"


section \<open>The orchestrator: failures, the fetch path and freshness\<close>

declare notQuoteStar.simps [simp del]
declare altExp_FindString.simps [simp del]
declare httpExp_ReplaceAll.simps [simp del]

lemma requests_getUpstreamAtom:
  "requests (snd (getUpstreamAtom env w)) = requests w @ [upstreamURL]"
  by (simp add: getUpstreamAtom_def client_Get_def split: sum.splits)




lemma memcache_Set_requests: "requests (snd (memcache_Set w item)) = requests w"
  by (simp add: memcache_Set_def split: option.splits)



lemma example_truncated_neq: "example_truncated \<noteq> example_bytes"
  by (simp add: example_truncated_def example_bytes_def quoted_def)

lemma ReplaceAll_example: "httpExp_ReplaceAll example_bytes = example_bytes"
  by code_simp

lemma getUpstreamAtom_example:
  "upstream w upstreamURL = Inr \<lparr>StatusCode = 200, Body = Inr example_bytes\<rparr>
   \<Longrightarrow> fst (getUpstreamAtom (example_env m) w) = Inr example_feed"
  by (simp add: getUpstreamAtom_def client_Get_def StatusOK_def ReplaceAll_example
      example_env_def)

text \<open>
  Claim C2. When the lookup in the cache fails and the upstream answers with a status
  other than 200, the orchestrator returns \<open>UpstreamStatusError\<close> and the cache is
  as it was before the request: nothing is stored.
\<close>

theorem upstream_status_error_no_cache_write:
  assumes "memcache_Get w atomKey = Inl e"
    and "upstream w upstreamURL = Inr resp"
    and "StatusCode resp \<noteq> StatusOK"
  shows "fst (cachingGetUpstreamAtom env w) = Inl UpstreamStatusError
     \<and> memcache (snd (cachingGetUpstreamAtom env w)) = memcache w"
  using assms
  by (simp add: cachingGetUpstreamAtom_def getUpstreamAtom_def client_Get_def Infof_def)

theorem upstream_status_error_no_cache_write_witness:
  "memcache_Get (example_world None (Inr \<lparr>StatusCode = 404, Body = Inr ''not found''\<rparr>)) atomKey
     = Inl ErrCacheMiss
   \<and> fst (cachingGetUpstreamAtom (example_env (\<lambda>f. Inr example_bytes))
            (example_world None (Inr \<lparr>StatusCode = 404, Body = Inr ''not found''\<rparr>)))
     = Inl UpstreamStatusError
   \<and> memcache (snd (cachingGetUpstreamAtom (example_env (\<lambda>f. Inr example_bytes))
            (example_world None (Inr \<lparr>StatusCode = 404, Body = Inr ''not found''\<rparr>))))
     = Map.empty"
proof -
  let ?w = "example_world None (Inr \<lparr>StatusCode = 404, Body = Inr ''not found''\<rparr>)"
  have 1: "memcache_Get ?w atomKey = Inl ErrCacheMiss"
    by (simp add: memcache_Get_def example_world_def)
  have 2: "upstream ?w upstreamURL = Inr \<lparr>StatusCode = 404, Body = Inr ''not found''\<rparr>"
    by (simp add: example_world_def)
  have 3: "StatusCode \<lparr>StatusCode = 404, Body = Inr ''not found''\<rparr> \<noteq> StatusOK"
    by (simp add: StatusOK_def)
  show ?thesis
    using upstream_status_error_no_cache_write [OF 1 2 3, of "example_env (\<lambda>f. Inr example_bytes)"] 1
    by (simp add: example_world_def)
qed

text \<open>
  Claim C3. When the lookup at \<open>atomKey\<close> gives an item whose bytes do not
  deserialize, the orchestrator fails with \<open>CacheCorruptionError\<close>; it fetches
  nothing (no request is made) and stores nothing.
\<close>

theorem cache_corruption_no_fetch:
  assumes "memcache_Get w atomKey = Inr item"
    and "xml_Unmarshal env (Value item) = Inl e"
  shows "fst (cachingGetUpstreamAtom env w) = Inl (CacheCorruptionError e)
     \<and> requests (snd (cachingGetUpstreamAtom env w)) = requests w
     \<and> memcache (snd (cachingGetUpstreamAtom env w)) = memcache w"
  using assms by (simp add: cachingGetUpstreamAtom_def Infof_def)

theorem cache_corruption_no_fetch_witness:
  "memcache_Get (example_cached example_truncated Minute) atomKey
     = Inr \<lparr>Key = atomKey, Value = example_truncated, Expiration = 5 * Minute\<rparr>
   \<and> fst (cachingGetUpstreamAtom (example_env (\<lambda>f. Inr example_bytes))
            (example_cached example_truncated Minute))
     = Inl (CacheCorruptionError ''XML syntax error on line 1: unexpected EOF'')
   \<and> requests (snd (cachingGetUpstreamAtom (example_env (\<lambda>f. Inr example_bytes))
            (example_cached example_truncated Minute))) = []"
proof -
  let ?w = "example_cached example_truncated Minute"
  let ?env = "example_env (\<lambda>f. Inr example_bytes)"
  let ?item = "\<lparr>Key = atomKey, Value = example_truncated, Expiration = 5 * Minute\<rparr>"
  have 1: "memcache_Get ?w atomKey = Inr ?item"
    by (simp add: memcache_Get_def example_cached_def Minute_def Second_def)
  have 2: "xml_Unmarshal ?env (Value ?item) = Inl ''XML syntax error on line 1: unexpected EOF''"
    by (simp add: example_env_def example_truncated_neq)
  show ?thesis
    using cache_corruption_no_fetch [OF 1 2] 1
    by (simp add: example_cached_def)
qed

text \<open>
  Claim C6. When the lookup fails and the fetch path gives a feed, the orchestrator
  returns that feed, whatever \<open>xml.Marshal\<close> and \<open>memcache.Set\<close> do: their
  failures are not returned.
\<close>

theorem store_failure_absorbed:
  assumes "memcache_Get w atomKey = Inl e"
    and "fst (getUpstreamAtom env (Infof w ''making request to xkcd.com'')) = Inr feed"
  shows "fst (cachingGetUpstreamAtom env w) = Inr feed"
proof -
  obtain r w2 where g: "getUpstreamAtom env (Infof w ''making request to xkcd.com'') = (r, w2)"
    by (cases "getUpstreamAtom env (Infof w ''making request to xkcd.com'')")
  with assms(2) have "r = Inr feed" by simp
  with assms(1) g show ?thesis
    by (simp add: cachingGetUpstreamAtom_def split: sum.splits)
qed

theorem store_failure_absorbed_witness:
  "memcache_Get
     (example_world (Some ''memcache: server error'')
        (Inr \<lparr>StatusCode = 200, Body = Inr example_bytes\<rparr>)) atomKey = Inl ErrCacheMiss
   \<and> xml_Marshal (example_env (\<lambda>f. Inl ''xml: unsupported type'')) example_feed
       = Inl ''xml: unsupported type''
   \<and> fst (cachingGetUpstreamAtom (example_env (\<lambda>f. Inl ''xml: unsupported type''))
        (example_world (Some ''memcache: server error'')
           (Inr \<lparr>StatusCode = 200, Body = Inr example_bytes\<rparr>))) = Inr example_feed
   \<and> fst (cachingGetUpstreamAtom (example_env (\<lambda>f. Inr example_bytes))
        (example_world (Some ''memcache: server error'')
           (Inr \<lparr>StatusCode = 200, Body = Inr example_bytes\<rparr>))) = Inr example_feed"
proof -
  let ?w = "example_world (Some ''memcache: server error'')
              (Inr \<lparr>StatusCode = 200, Body = Inr example_bytes\<rparr>)"
  have 1: "memcache_Get ?w atomKey = Inl ErrCacheMiss"
    by (simp add: memcache_Get_def example_world_def)
  have 2: "fst (getUpstreamAtom (example_env m) (Infof ?w ''making request to xkcd.com''))
             = Inr example_feed" for m
    by (rule getUpstreamAtom_example) (simp add: Infof_def example_world_def)
  have 3: "xml_Marshal (example_env (\<lambda>f. Inl ''xml: unsupported type'')) example_feed
       = Inl ''xml: unsupported type''"
    by (simp add: example_env_def)
  show ?thesis
    using store_failure_absorbed [OF 1 2, of "\<lambda>f. Inl ''xml: unsupported type''"]
      store_failure_absorbed [OF 1 2, of "\<lambda>f. Inr example_bytes"] 1 3
    by simp
qed

lemma fetch_path_after_lookup_error:
  assumes "memcache_Get w atomKey = Inl e"
  shows "fst (cachingGetUpstreamAtom env w)
           = fst (getUpstreamAtom env (Infof w ''making request to xkcd.com''))
     \<and> requests (snd (cachingGetUpstreamAtom env w)) = requests w @ [upstreamURL]"
proof -
  let ?w1 = "Infof w ''making request to xkcd.com''"
  have r: "requests (snd (getUpstreamAtom env ?w1)) = requests w @ [upstreamURL]"
    by (simp add: requests_getUpstreamAtom Infof_def)
  show ?thesis
    using assms r
    by (auto simp: cachingGetUpstreamAtom_def memcache_Set_requests
        split: prod.splits sum.splits)
qed

text \<open>
  Claim C9. Whatever error the lookup returns, a miss or any other, the orchestrator
  makes the upstream request and returns what the fetch path returns: the error of the
  lookup is not part of the result.
\<close>

theorem lookup_error_takes_fetch_path:
  assumes "memcache_Get w atomKey = Inl e"
  shows "fst (cachingGetUpstreamAtom env w)
           = fst (getUpstreamAtom env (Infof w ''making request to xkcd.com''))
     \<and> requests (snd (cachingGetUpstreamAtom env w)) = requests w @ [upstreamURL]"
  using assms by (rule fetch_path_after_lookup_error)

theorem lookup_error_takes_fetch_path_witness:
  "memcache_Get
     ((example_cached example_bytes Minute)\<lparr>memcache_Get_fault := Some ''memcache: server error''\<rparr>)
     atomKey = Inl ''memcache: server error''
   \<and> fst (cachingGetUpstreamAtom (example_env (\<lambda>f. Inr example_bytes))
        ((example_cached example_bytes Minute)\<lparr>memcache_Get_fault := Some ''memcache: server error''\<rparr>))
       = Inl (TransportError ''urlfetch: deadline exceeded'')
   \<and> requests (snd (cachingGetUpstreamAtom (example_env (\<lambda>f. Inr example_bytes))
        ((example_cached example_bytes Minute)\<lparr>memcache_Get_fault := Some ''memcache: server error''\<rparr>)))
       = [upstreamURL]"
proof -
  let ?w = "(example_cached example_bytes Minute)\<lparr>memcache_Get_fault := Some ''memcache: server error''\<rparr>"
  have 1: "memcache_Get ?w atomKey = Inl ''memcache: server error''"
    by (simp add: memcache_Get_def example_cached_def)
  have 2: "fst (getUpstreamAtom env (Infof ?w ''making request to xkcd.com''))
             = Inl (TransportError ''urlfetch: deadline exceeded'')" for env
    by (simp add: getUpstreamAtom_def client_Get_def Infof_def example_cached_def)
  have 3: "requests ?w = []"
    by (simp add: example_cached_def)
  show ?thesis
    using lookup_error_takes_fetch_path [OF 1, of "example_env (\<lambda>f. Inr example_bytes)"] 1 2 3
    by simp
qed








section \<open>The presentation adapters and the feed they receive\<close>

lemma fold_update_Entry:
  "n \<le> length (Feed.Entry feed) \<Longrightarrow>
   fold (\<lambda>i f. f\<lparr>Feed.Entry := (Feed.Entry f)[i := g (Feed.Entry f ! i)]\<rparr>) [0..<n] feed
     = feed\<lparr>Feed.Entry := map g (take n (Feed.Entry feed)) @ drop n (Feed.Entry feed)\<rparr>"
proof (induction n)
  case 0
  then show ?case by simp
next
  case (Suc n)
  let ?es = "Feed.Entry feed"
  have n: "n < length ?es" using Suc.prems by simp
  have "(map g (take n ?es) @ drop n ?es)[n := g ((map g (take n ?es) @ drop n ?es) ! n)]
          = map g (take (Suc n) ?es) @ drop (Suc n) ?es"
    using n
    by (simp add: nth_append list_update_append take_Suc_conv_app_nth
        Cons_nth_drop_Suc [symmetric])
  with Suc.IH n show ?case by simp
qed

lemma atomHandler_loop_map:
  "atomHandler_loop feed = feed\<lparr>Feed.Entry := map appendAltText (Feed.Entry feed)\<rparr>"
  by (simp add: atomHandler_loop_def fold_update_Entry)

lemma fold_append_nth:
  "n \<le> length xs \<Longrightarrow> fold (\<lambda>i acc. acc @ [h (xs ! i)]) [0..<n] [] = map h (take n xs)"
  by (induction n) (simp_all add: take_Suc_conv_app_nth)

lemma mainHandler_loop_map:
  "mainHandler_loop env feed =
     map (\<lambda>e. \<lparr>pageEntry.Title = Entry.Title e,
                Img = html_UnescapeString env (Summary.Body (Entry.Summary e)),
                Text = html_UnescapeString env (AltText e)\<rparr>) (Feed.Entry feed)"
  using fold_append_nth [of "length (Feed.Entry feed)" "Feed.Entry feed"
      "\<lambda>e. \<lparr>pageEntry.Title = Entry.Title e,
                Img = html_UnescapeString env (Summary.Body (Entry.Summary e)),
                Text = html_UnescapeString env (AltText e)\<rparr>"]
  by (simp add: mainHandler_loop_def)

lemma AltText_example:
  "AltText (example_entry (''<img alt='' @ [quote] @ ''hi'' @ [quote] @ ''/>'')) = ''hi''"
  by code_simp

lemma cachingGetUpstreamAtom_example:
  "cachingGetUpstreamAtom (example_env m) (example_cached example_bytes Minute)
     = (Inr example_feed, Infof (example_cached example_bytes Minute) ''found feed in cache'')"
  by (simp add: cachingGetUpstreamAtom_def memcache_Get_def example_cached_def example_env_def
      Minute_def Second_def)

text \<open>
  Claim C8 as stated fails for the republish adapter. The orchestrator hands
  \<open>example_feed\<close> to \<open>atomHandler\<close>; when the handler returns, the body of the
  entry's summary has a newline and the caption appended.
\<close>

theorem adapters_leave_feed_counterexample:
  "fst (cachingGetUpstreamAtom (example_env (\<lambda>f. Inr example_bytes))
          (example_cached example_bytes Minute)) = Inr example_feed
   \<and> fst (snd (atomHandler (example_env (\<lambda>f. Inr example_bytes))
          (example_cached example_bytes Minute)))
       = Some (example_feed\<lparr>Feed.Entry :=
           [example_entry (''<img alt='' @ [quote] @ ''hi'' @ [quote] @ ''/>'' @ [newline] @ ''hi'')]\<rparr>)
   \<and> fst (snd (atomHandler (example_env (\<lambda>f. Inr example_bytes))
          (example_cached example_bytes Minute))) \<noteq> Some example_feed"
proof -
  have "appendAltText (example_entry (''<img alt='' @ [quote] @ ''hi'' @ [quote] @ ''/>''))
          = example_entry (''<img alt='' @ [quote] @ ''hi'' @ [quote] @ ''/>'' @ [newline] @ ''hi'')"
    unfolding appendAltText_def AltText_example by (simp add: example_entry_def)
  then have "atomHandler_loop example_feed = example_feed\<lparr>Feed.Entry :=
           [example_entry (''<img alt='' @ [quote] @ ''hi'' @ [quote] @ ''/>'' @ [newline] @ ''hi'')]\<rparr>"
    by (simp add: atomHandler_loop_map) (simp add: example_feed_def)
  moreover have "example_feed\<lparr>Feed.Entry :=
           [example_entry (''<img alt='' @ [quote] @ ''hi'' @ [quote] @ ''/>'' @ [newline] @ ''hi'')]\<rparr>
        \<noteq> example_feed"
    by (simp add: example_feed_def example_entry_def)
  moreover have "xml_Marshal (example_env (\<lambda>f. Inr example_bytes)) f = Inr example_bytes" for f
    by (simp add: example_env_def)
  ultimately show ?thesis
    by (simp add: atomHandler_def cachingGetUpstreamAtom_example Let_def)
qed

text \<open>
  Claim C8, amended. \<open>mainHandler\<close> leaves the feed it receives as it was.
  \<open>atomHandler\<close> changes that feed in one way: every entry goes through
  \<open>appendAltText\<close>, which appends a newline and the entry's caption to the body of
  its summary and keeps every other field of the entry; the fields of the feed other
  than its entries, and the number and order of the entries, are as they were. Neither
  handler changes the state outside (the cache included) after the orchestrator has
  returned.
\<close>

theorem adapters_frame:
  assumes "cachingGetUpstreamAtom env w = (Inr feed, w1)"
  shows "fst (snd (mainHandler env w)) = Some feed
     \<and> snd (snd (mainHandler env w)) = w1
     \<and> fst (snd (atomHandler env w))
         = Some (feed\<lparr>Feed.Entry := map appendAltText (Feed.Entry feed)\<rparr>)
     \<and> snd (snd (atomHandler env w)) = w1
     \<and> (\<forall>e. Entry.Title (appendAltText e) = Entry.Title e
           \<and> Entry.Link (appendAltText e) = Entry.Link e
           \<and> Entry.Updated (appendAltText e) = Entry.Updated e
           \<and> Entry.ID (appendAltText e) = Entry.ID e
           \<and> Summary.Type (Entry.Summary (appendAltText e)) = Summary.Type (Entry.Summary e)
           \<and> Summary.Body (Entry.Summary (appendAltText e))
               = Summary.Body (Entry.Summary e) @ [newline] @ AltText e)"
proof -
  have m: "fst (snd (mainHandler env w)) = Some feed \<and> snd (snd (mainHandler env w)) = w1"
    using assms by (simp add: mainHandler_def split: prod.splits option.splits)
  have a: "fst (snd (atomHandler env w))
         = Some (feed\<lparr>Feed.Entry := map appendAltText (Feed.Entry feed)\<rparr>)
     \<and> snd (snd (atomHandler env w)) = w1"
    using assms
    by (simp add: atomHandler_def atomHandler_loop_map Let_def split: sum.splits)
  show ?thesis using m a by (simp add: appendAltText_def)
qed

theorem adapters_frame_witness:
  "cachingGetUpstreamAtom (example_env (\<lambda>f. Inr example_bytes)) (example_cached example_bytes Minute)
     = (Inr example_feed, Infof (example_cached example_bytes Minute) ''found feed in cache'')
   \<and> fst (snd (mainHandler (example_env (\<lambda>f. Inr example_bytes))
          (example_cached example_bytes Minute))) = Some example_feed
   \<and> fst (snd (atomHandler (example_env (\<lambda>f. Inr example_bytes))
          (example_cached example_bytes Minute)))
       = Some (example_feed\<lparr>Feed.Entry := map appendAltText (Feed.Entry example_feed)\<rparr>)
   \<and> snd (snd (atomHandler (example_env (\<lambda>f. Inr example_bytes))
          (example_cached example_bytes Minute)))
       = Infof (example_cached example_bytes Minute) ''found feed in cache''"
  using adapters_frame [OF cachingGetUpstreamAtom_example, of "\<lambda>f. Inr example_bytes"]
    cachingGetUpstreamAtom_example [of "\<lambda>f. Inr example_bytes"]
  by simp


section \<open>Runes, and the caption extractor\<close>

lemma literal_iff: "literal p s = Some r \<longleftrightarrow> s = p @ r"
  by (induction p s rule: literal.induct) auto

lemma utf8_first_Some:
  "utf8_first b = Some (sz, lo, hi) \<Longrightarrow> 2 \<le> sz \<and> sz \<le> 4 \<and> 0x80 \<le> lo \<and> hi \<le> 0xBF \<and> 0xC2 \<le> b"
  by (auto simp: utf8_first_def split: if_splits)

text \<open>The width as a case distinction on the bytes that follow the lead byte.\<close>

lemma DecodeRune_size_Cons:
  "DecodeRune_size (p0 # t) =
     (case utf8_first (byte p0) of
        None \<Rightarrow> 1
      | Some (sz, lo, hi) \<Rightarrow>
          if sz - 1 \<le> length t \<and> lo \<le> byte (t ! 0) \<and> byte (t ! 0) \<le> hi
             \<and> (\<forall>i. 1 \<le> i \<and> i < sz - 1 \<longrightarrow> 0x80 \<le> byte (t ! i) \<and> byte (t ! i) \<le> 0xBF)
          then sz else 1)"
proof (cases "utf8_first (byte p0)")
  case None
  then show ?thesis by (simp add: DecodeRune_size_def)
next
  case (Some x)
  obtain sz lo hi where x: "x = (sz, lo, hi)" by (cases x)
  from Some x have "2 \<le> sz \<and> sz \<le> 4" by (auto dest: utf8_first_Some)
  then consider "sz = 2" | "sz = 3" | "sz = 4" by arith
  then show ?thesis
  proof cases
    case 1
    with Some x show ?thesis by (auto simp: DecodeRune_size_def Suc_le_eq)
  next
    case 2
    have "(\<forall>i. 1 \<le> i \<and> i < (2::nat) \<longrightarrow> P i) \<longleftrightarrow> P 1" for P
      by (metis One_nat_def Suc_1 le_antisym less_Suc_eq_le order_refl one_less_numeral_iff semiring_norm(76))
    with 2 Some x show ?thesis by (auto simp: DecodeRune_size_def not_less)
  next
    case 3
    have "(\<forall>i. 1 \<le> i \<and> i < (3::nat) \<longrightarrow> P i) \<longleftrightarrow> P 1 \<and> P 2" for P
    proof
      assume a: "\<forall>i. 1 \<le> i \<and> i < (3::nat) \<longrightarrow> P i"
      show "P 1 \<and> P 2" using a by simp
    next
      assume a: "P 1 \<and> P 2"
      show "\<forall>i. 1 \<le> i \<and> i < (3::nat) \<longrightarrow> P i"
      proof (intro allI impI)
        fix i :: nat assume "1 \<le> i \<and> i < 3"
        then have "i = 1 \<or> i = 2" by arith
        with a show "P i" by auto
      qed
    qed
    with 3 Some x show ?thesis by (auto simp: DecodeRune_size_def not_less)
  qed
qed

lemma DecodeRune_size_bounds:
  "s \<noteq> [] \<Longrightarrow> 1 \<le> DecodeRune_size s \<and> DecodeRune_size s \<le> length s"
proof (cases s)
  case Nil
  assume "s \<noteq> []" with Nil show ?thesis by simp
next
  case (Cons p0 t)
  show ?thesis
    unfolding Cons DecodeRune_size_Cons
    by (auto split: option.splits dest!: utf8_first_Some)
qed

lemma DecodeRune_size_high:
  assumes "1 \<le> i" and "i < DecodeRune_size s"
  shows "0x80 \<le> byte (s ! i)"
proof (cases s)
  case Nil
  with assms show ?thesis by (simp add: DecodeRune_size_def)
next
  case (Cons p0 t)
  from assms(1) obtain j where j: "i = Suc j" by (cases i) auto
  show ?thesis
  proof (cases "utf8_first (byte p0)")
    case None
    with assms Cons show ?thesis by (simp add: DecodeRune_size_Cons)
  next
    case (Some x)
    obtain sz lo hi where x: "x = (sz, lo, hi)" by (cases x)
    have lo: "0x80 \<le> lo" using Some x by (auto dest: utf8_first_Some)
    have c: "lo \<le> byte (t ! 0)"
      "\<forall>i. 1 \<le> i \<and> i < sz - 1 \<longrightarrow> 0x80 \<le> byte (t ! i)" "Suc j < sz"
      using assms(2) Cons Some x j
      by (auto simp: DecodeRune_size_Cons split: if_splits)
    show ?thesis
    proof (cases j)
      case 0
      with c(1) lo j Cons show ?thesis by simp
    next
      case (Suc k)
      with c(2,3) j Cons show ?thesis by auto
    qed
  qed
qed

lemma DecodeRune_size_low_byte:
  assumes "byte c < 0x80"
  shows "DecodeRune_size (p0 # q @ c # u) = DecodeRune_size (p0 # q @ c # u')"
proof (cases "utf8_first (byte p0)")
  case None
  then show ?thesis by (simp add: DecodeRune_size_Cons)
next
  case (Some x)
  obtain sz lo hi where x: "x = (sz, lo, hi)" by (cases x)
  have lo: "0x80 \<le> lo" "2 \<le> sz" using Some x by (auto dest: utf8_first_Some)
  show ?thesis
  proof (cases "sz - 1 \<le> length q")
    case True
    then have "i < sz - 1 \<Longrightarrow> (q @ c # v) ! i = q ! i" for i v
      by (simp add: nth_append)
    moreover have "0 < sz - 1" using lo by simp
    ultimately show ?thesis
      using True Some x by (auto simp: DecodeRune_size_Cons)
  next
    case False
    then have j: "length q < sz - 1" by simp
    have n: "(q @ c # v) ! length q = c" for v by simp
    have noc: "\<not> (sz - 1 \<le> length (q @ c # v) \<and> lo \<le> byte ((q @ c # v) ! 0)
         \<and> byte ((q @ c # v) ! 0) \<le> hi \<and>
         (\<forall>i. 1 \<le> i \<and> i < sz - 1 \<longrightarrow> 0x80 \<le> byte ((q @ c # v) ! i) \<and> byte ((q @ c # v) ! i) \<le> 0xBF))" for v
    proof (cases "length q")
      case 0
      then show ?thesis using assms lo by simp
    next
      case (Suc k)
      have "\<not> 0x80 \<le> byte ((q @ c # v) ! length q)" using assms by (simp add: not_le)
      moreover have "1 \<le> length q \<and> length q < sz - 1" using Suc j by simp
      ultimately show ?thesis by blast
    qed
    have "DecodeRune_size (p0 # q @ c # v) = 1" for v
      by (simp only: DecodeRune_size_Cons Some x option.case prod.case noc if_False)
    then show ?thesis by simp
  qed
qed

lemma dropWhile_skip:
  assumes "n \<le> length s" and "\<forall>i<n. P (s ! i)"
  shows "dropWhile P s = dropWhile P (drop n s)"
proof -
  have "\<forall>x\<in>set (take n s). P x"
    using assms by (auto simp: in_set_conv_nth)
  then have "dropWhile P (take n s @ drop n s) = dropWhile P (drop n s)"
    by (intro dropWhile_append2) auto
  then show ?thesis by simp
qed

lemma notQuoteStar_dropWhile: "notQuoteStar s = dropWhile (\<lambda>c. c \<noteq> quote) s"
proof (induction s rule: notQuoteStar.induct)
  case (1 s)
  show ?case
  proof (cases "s = [] \<or> hd s = quote")
    case True
    then have "notQuoteStar s = s" by (subst notQuoteStar.simps) simp
    moreover have "dropWhile (\<lambda>c. c \<noteq> quote) s = s" using True by (cases s) auto
    ultimately show ?thesis by simp
  next
    case False
    let ?n = "DecodeRune_size s"
    have n: "1 \<le> ?n" "?n \<le> length s"
      using False DecodeRune_size_bounds [of s] by auto
    have "s ! i \<noteq> quote" if "i < ?n" for i
    proof (cases i)
      case 0
      with False show ?thesis by (cases s) auto
    next
      case (Suc k)
      then have "0x80 \<le> byte (s ! i)" using that by (intro DecodeRune_size_high) auto
      then show ?thesis by (auto simp: byte_def)
    qed
    then have "dropWhile (\<lambda>c. c \<noteq> quote) s = dropWhile (\<lambda>c. c \<noteq> quote) (drop ?n s)"
      using n by (intro dropWhile_skip) auto
    with "1.IH" [OF False] False show ?thesis
      by (simp add: notQuoteStar.simps [of s])
  qed
qed

lemma dropWhile_quote_iff:
  "dropWhile (\<lambda>c. c \<noteq> quote) r = quote # rest
     \<longleftrightarrow> (\<exists>v. r = v @ quote # rest \<and> quote \<notin> set v)"
proof
  assume a: "dropWhile (\<lambda>c. c \<noteq> quote) r = quote # rest"
  have "r = takeWhile (\<lambda>c. c \<noteq> quote) r @ dropWhile (\<lambda>c. c \<noteq> quote) r" by simp
  with a have "r = takeWhile (\<lambda>c. c \<noteq> quote) r @ quote # rest" by simp
  moreover have "quote \<notin> set (takeWhile (\<lambda>c. c \<noteq> quote) r)"
    by (auto dest: set_takeWhileD)
  ultimately show "\<exists>v. r = v @ quote # rest \<and> quote \<notin> set v" by blast
next
  assume "\<exists>v. r = v @ quote # rest \<and> quote \<notin> set v"
  then obtain v where r: "r = v @ quote # rest" and v: "quote \<notin> set v" by blast
  have "x \<noteq> quote" if "x \<in> set v" for x using that v by auto
  then have "dropWhile (\<lambda>c. c \<noteq> quote) (v @ quote # rest)
      = dropWhile (\<lambda>c. c \<noteq> quote) (quote # rest)"
    by (rule dropWhile_append2)
  with r show "dropWhile (\<lambda>c. c \<noteq> quote) r = quote # rest" by simp
qed

lemma altExp_match_iff:
  "altExp_match s = Some rest \<longleftrightarrow> (\<exists>v. alt_occurrence s [] v rest)"
  by (auto simp: altExp_match_def alt_occurrence_def literal_iff notQuoteStar_dropWhile
      dropWhile_quote_iff split: option.splits)

lemma alt_occurrence_unique:
  assumes "alt_occurrence s pre v post" and "alt_occurrence s pre v' post'"
  shows "v = v' \<and> post = post'"
proof -
  from assms have e: "v @ quote # post = v' @ quote # post'"
    and q: "quote \<notin> set v" "quote \<notin> set v'"
    by (auto simp: alt_occurrence_def)
  have "takeWhile (\<lambda>c. c \<noteq> quote) (v @ quote # post) = v"
    "takeWhile (\<lambda>c. c \<noteq> quote) (v' @ quote # post') = v'"
    using q by (auto simp: takeWhile_tail takeWhile_eq_all_conv)
  with e have "v = v'" by simp
  with e show ?thesis by simp
qed

lemma alt_occurrence_head:
  assumes "alt_occurrence s [] v rest"
  shows "take (length s - length rest) s = ''alt='' @ [quote] @ v @ [quote]"
proof -
  have g: "take (length (m @ t) - length t) (m @ t) = m" for m t :: string by simp
  have e: "s = (''alt='' @ [quote] @ v @ [quote]) @ rest"
    using assms by (simp add: alt_occurrence_def)
  show ?thesis unfolding e by (rule g)
qed

lemma alt_occurrence_Cons:
  "alt_occurrence (c # s) (c # pre) v post \<longleftrightarrow> alt_occurrence s pre v post"
  by (simp add: alt_occurrence_def)

lemma alt_occurrence_match:
  assumes "alt_occurrence s pre v post"
  shows "altExp_match (drop (length pre) s) = Some post"
proof -
  have "alt_occurrence (drop (length pre) s) [] v post"
    using assms by (simp add: alt_occurrence_def)
  then show ?thesis by (auto simp: altExp_match_iff)
qed

lemma FindString_first:
  "first_alt_occurrence s pre v post \<Longrightarrow> altExp_FindString s = ''alt='' @ [quote] @ v @ [quote]"
proof (induction pre arbitrary: s)
  case Nil
  then have o: "alt_occurrence s [] v post" by (simp add: first_alt_occurrence_def)
  then have "altExp_match s = Some post" by (auto simp: altExp_match_iff)
  moreover have "take (length s - length post) s = ''alt='' @ [quote] @ v @ [quote]"
    using o by (rule alt_occurrence_head)
  ultimately show ?case by (simp add: altExp_FindString.simps [of s])
next
  case (Cons c pre)
  then have o: "alt_occurrence s (c # pre) v post"
    and least: "\<And>pre' v' post'. alt_occurrence s pre' v' post' \<Longrightarrow> Suc (length pre) \<le> length pre'"
    by (auto simp: first_alt_occurrence_def)
  from o obtain s' where s: "s = c # s'" by (auto simp: alt_occurrence_def)
  have none: "altExp_match s = None"
  proof (cases "altExp_match s")
    case (Some rest)
    then obtain v' where "alt_occurrence s [] v' rest" by (auto simp: altExp_match_iff)
    from least [OF this] show ?thesis by simp
  qed simp
  have "first_alt_occurrence s' pre v post"
    unfolding first_alt_occurrence_def
  proof (intro conjI allI impI)
    show "alt_occurrence s' pre v post" using o s by (simp add: alt_occurrence_Cons)
  next
    fix pre' v' post'
    assume "alt_occurrence s' pre' v' post'"
    then have "alt_occurrence s (c # pre') v' post'" using s by (simp add: alt_occurrence_Cons)
    from least [OF this] show "length pre \<le> length pre'" by simp
  qed
  from Cons.IH [OF this] none s show ?case
    by (simp add: altExp_FindString.simps [of "c # s'"])
qed

lemma FindString_none:
  "(\<forall>pre v post. \<not> alt_occurrence s pre v post) \<Longrightarrow> altExp_FindString s = []"
proof (induction s)
  case Nil
  then show ?case by (simp add: altExp_FindString.simps [of "[]"] altExp_match_def)
next
  case (Cons c s)
  have none: "altExp_match (c # s) = None"
  proof (cases "altExp_match (c # s)")
    case (Some rest)
    then obtain v' where "alt_occurrence (c # s) [] v' rest" by (auto simp: altExp_match_iff)
    with Cons.prems show ?thesis by blast
  qed simp
  have "\<forall>pre v post. \<not> alt_occurrence s pre v post"
    using Cons.prems alt_occurrence_Cons [of c s] by blast
  from Cons.IH [OF this] none show ?case
    by (simp add: altExp_FindString.simps [of "c # s"])
qed

lemma FindString_form:
  "altExp_FindString s = [] \<or>
   (\<exists>v. altExp_FindString s = ''alt='' @ [quote] @ v @ [quote] \<and> quote \<notin> set v)"
proof (induction s rule: altExp_FindString.induct)
  case (1 s)
  show ?case
  proof (cases "altExp_match s")
    case None
    then have f: "altExp_FindString s = (case s of [] \<Rightarrow> [] | c # cs \<Rightarrow> altExp_FindString cs)"
      by (subst altExp_FindString.simps) simp
    show ?thesis
    proof (cases s)
      case Nil
      with f show ?thesis by simp
    next
      case (Cons c cs)
      with f "1.IH" [OF None Cons] show ?thesis by simp
    qed
  next
    case (Some rest)
    then obtain v where o: "alt_occurrence s [] v rest" by (auto simp: altExp_match_iff)
    then have "take (length s - length rest) s = ''alt='' @ [quote] @ v @ [quote]"
      "quote \<notin> set v"
      by (simp_all add: alt_occurrence_head) (simp add: alt_occurrence_def)
    with Some show ?thesis by (simp add: altExp_FindString.simps [of s])
  qed
qed

lemma AltText_slice_in_range:
  assumes "altExp_FindString b \<noteq> []"
  shows "6 \<le> length (altExp_FindString b) \<and> 5 \<le> length (altExp_FindString b) - 1
     \<and> length (altExp_FindString b) - 1 \<le> length (altExp_FindString b)"
  using assms FindString_form [of b] by auto

lemma AltText_first:
  assumes "first_alt_occurrence (Summary.Body (Entry.Summary e)) pre v post"
  shows "AltText e = v"
  using FindString_first [OF assms] by (simp add: AltText_def slice_def)

lemma AltText_none:
  assumes "\<forall>pre v post. \<not> alt_occurrence (Summary.Body (Entry.Summary e)) pre v post"
  shows "AltText e = []"
  using FindString_none [OF assms] by (simp add: AltText_def)

lemma first_alt_occurrence_exists:
  assumes "alt_occurrence s pre v post"
  shows "\<exists>pre' v' post'. first_alt_occurrence s pre' v' post'"
proof -
  let ?P = "\<lambda>n. \<exists>pre v post. alt_occurrence s pre v post \<and> length pre = n"
  have "?P (length pre)" using assms by blast
  then have l: "?P (LEAST n. ?P n)" by (rule LeastI)
  then obtain pre' v' post' where o: "alt_occurrence s pre' v' post'"
    and n: "length pre' = (LEAST n. ?P n)" by blast
  have "length pre' \<le> length p" if "alt_occurrence s p w q" for p w q
  proof -
    have "?P (length p)" using that by blast
    then have "(LEAST n. ?P n) \<le> length p" by (rule Least_le)
    with n show ?thesis by simp
  qed
  with o have "first_alt_occurrence s pre' v' post'"
    by (auto simp: first_alt_occurrence_def)
  then show ?thesis by blast
qed

lemma alt_occurrence_found:
  assumes "alt_occurrence s pre v post"
  shows "altExp_FindString s \<noteq> []"
proof -
  obtain pre' v' post' where "first_alt_occurrence s pre' v' post'"
    using first_alt_occurrence_exists [OF assms] by blast
  from FindString_first [OF this] show ?thesis by simp
qed

lemma first_alt_occurrenceI:
  assumes "alt_occurrence s pre v post"
    and "list_all (\<lambda>i. altExp_match (drop i s) = None) [0..<length pre]"
  shows "first_alt_occurrence s pre v post"
  unfolding first_alt_occurrence_def
proof (intro conjI allI impI)
  show "alt_occurrence s pre v post" by fact
next
  fix pre' v' post'
  assume "alt_occurrence s pre' v' post'"
  then have m: "altExp_match (drop (length pre') s) = Some post'"
    by (rule alt_occurrence_match)
  show "length pre \<le> length pre'"
  proof (rule ccontr)
    assume "\<not> length pre \<le> length pre'"
    then have "length pre' \<in> set [0..<length pre]" by simp
    with assms(2) have "altExp_match (drop (length pre') s) = None"
      unfolding list_all_iff by blast
    with m show False by simp
  qed
qed

text \<open>
  Claim C4. When the body of the summary has an occurrence of \<open>alt="v"\<close> with no
  double quote in \<open>v\<close>, \<open>AltText\<close> returns the value of the first one (the one
  that starts leftmost), whatever follows it; when the body has no occurrence,
  \<open>AltText\<close> returns the empty string. One of the two is always the case.
  \<open>AltText\<close> is a function of the entry it reads and returns the caption only; the
  caption depends on nothing but the body as it is stored.
\<close>

theorem AltText_first_occurrence:
  "(first_alt_occurrence (Summary.Body (Entry.Summary e)) pre v post \<longrightarrow> AltText e = v)
   \<and> ((\<forall>pre v post. \<not> alt_occurrence (Summary.Body (Entry.Summary e)) pre v post)
        \<longrightarrow> AltText e = [])
   \<and> ((\<exists>pre v post. first_alt_occurrence (Summary.Body (Entry.Summary e)) pre v post)
        \<or> (\<forall>pre v post. \<not> alt_occurrence (Summary.Body (Entry.Summary e)) pre v post))
   \<and> (Summary.Body (Entry.Summary e') = Summary.Body (Entry.Summary e)
        \<longrightarrow> AltText e' = AltText e)"
proof -
  have "AltText e' = AltText e"
    if "Summary.Body (Entry.Summary e') = Summary.Body (Entry.Summary e)"
    using that by (simp add: AltText_def)
  then show ?thesis
    using AltText_first [of e pre v post] AltText_none [of e]
      first_alt_occurrence_exists [of "Summary.Body (Entry.Summary e)"]
    by blast
qed

lemma example_body_first:
  "first_alt_occurrence example_body ''foo <img '' ''bar''
     ('' src='' @ [quote] @ ''x'' @ [quote] @ ''> baz'')"
proof (rule first_alt_occurrenceI)
  show "alt_occurrence example_body ''foo <img '' ''bar''
     ('' src='' @ [quote] @ ''x'' @ [quote] @ ''> baz'')"
    by (simp add: alt_occurrence_def example_body_def)
  show "list_all (\<lambda>i. altExp_match (drop i example_body) = None) [0..<length ''foo <img '']"
    by code_simp
qed

lemma example_two_alts_first:
  "first_alt_occurrence example_two_alts ''<img '' ''one''
     ('' alt='' @ [quote] @ ''two'' @ [quote] @ ''>'')"
proof (rule first_alt_occurrenceI)
  show "alt_occurrence example_two_alts ''<img '' ''one''
     ('' alt='' @ [quote] @ ''two'' @ [quote] @ ''>'')"
    by (simp add: alt_occurrence_def example_two_alts_def)
  show "list_all (\<lambda>i. altExp_match (drop i example_two_alts) = None) [0..<length ''<img '']"
    by code_simp
qed

lemma no_caption_example: "\<forall>pre v post. \<not> alt_occurrence ''no caption'' pre v post"
proof -
  have "altExp_FindString ''no caption'' = []" by code_simp
  then show ?thesis using alt_occurrence_found by blast
qed

theorem AltText_first_occurrence_witness:
  "first_alt_occurrence example_body ''foo <img '' ''bar''
     ('' src='' @ [quote] @ ''x'' @ [quote] @ ''> baz'')
   \<and> AltText (example_entry example_body) = ''bar''
   \<and> first_alt_occurrence example_two_alts ''<img '' ''one''
     ('' alt='' @ [quote] @ ''two'' @ [quote] @ ''>'')
   \<and> AltText (example_entry example_two_alts) = ''one''
   \<and> (\<forall>pre v post. \<not> alt_occurrence ''no caption'' pre v post)
   \<and> AltText (example_entry ''no caption'') = []
   \<and> AltText ((example_entry example_body)\<lparr>Entry.Title := ''Another title''\<rparr>) = ''bar''"
proof -
  have b: "Summary.Body (Entry.Summary (example_entry s)) = s"
    "Summary.Body (Entry.Summary ((example_entry s)\<lparr>Entry.Title := t\<rparr>)) = s" for s t
    by (simp_all add: example_entry_def)
  show ?thesis
    using AltText_first_occurrence [of "example_entry example_body" "''foo <img ''" "''bar''"
        "'' src='' @ [quote] @ ''x'' @ [quote] @ ''> baz''"
        "(example_entry example_body)\<lparr>Entry.Title := ''Another title''\<rparr>"]
      AltText_first_occurrence [of "example_entry example_two_alts" "''<img ''" "''one''"
        "'' alt='' @ [quote] @ ''two'' @ [quote] @ ''>''"]
      AltText_first_occurrence [of "example_entry ''no caption''"]
      example_body_first example_two_alts_first no_caption_example
    unfolding b by metis
qed

text \<open>
  Claim C10. An entry whose body has no occurrence of \<open>alt="..."\<close> and an entry whose
  first occurrence is \<open>alt=""\<close> both give the empty string: the result does not tell
  them apart.
\<close>

theorem AltText_absent_or_empty:
  assumes "\<forall>pre v post. \<not> alt_occurrence (Summary.Body (Entry.Summary e1)) pre v post"
    and "first_alt_occurrence (Summary.Body (Entry.Summary e2)) pre [] post"
  shows "AltText e1 = [] \<and> AltText e2 = [] \<and> AltText e1 = AltText e2"
  using AltText_none [OF assms(1)] AltText_first [OF assms(2)] by simp

lemma empty_alt_example:
  "first_alt_occurrence (''<img alt='' @ [quote, quote] @ ''/>'') ''<img '' [] ''/>''"
proof (rule first_alt_occurrenceI)
  show "alt_occurrence (''<img alt='' @ [quote, quote] @ ''/>'') ''<img '' [] ''/>''"
    by (simp add: alt_occurrence_def)
  show "list_all (\<lambda>i. altExp_match (drop i (''<img alt='' @ [quote, quote] @ ''/>'')) = None)
     [0..<length ''<img '']"
    by code_simp
qed

theorem AltText_absent_or_empty_witness:
  "(\<forall>pre v post. \<not> alt_occurrence ''no caption'' pre v post)
   \<and> first_alt_occurrence (''<img alt='' @ [quote, quote] @ ''/>'') ''<img '' [] ''/>''
   \<and> AltText (example_entry ''no caption'') = []
   \<and> AltText (example_entry (''<img alt='' @ [quote, quote] @ ''/>'')) = []"
proof -
  have b: "Summary.Body (Entry.Summary (example_entry s)) = s" for s
    by (simp add: example_entry_def)
  show ?thesis
    using AltText_absent_or_empty [of "example_entry ''no caption''"
        "example_entry (''<img alt='' @ [quote, quote] @ ''/>'')" "''<img ''" "''/>''"]
      no_caption_example empty_alt_example
    unfolding b by blast
qed


section \<open>The link rewriter\<close>

lemma xkcd_com_iff:
  "xkcd_com r = Some rest \<longleftrightarrow> (\<exists>r2. r = ''xkcd'' @ r2 \<and> anyCharNotNL r2 = Some (''com'' @ rest))"
  by (auto simp: xkcd_com_def literal_iff split: option.splits)

lemma httpExp_match_iff:
  "httpExp_match s = Some (g, rest) \<longleftrightarrow>
     (\<exists>r2. (g = ''imgs.'' \<or> g = []) \<and> s = ''http://'' @ g @ ''xkcd'' @ r2
        \<and> anyCharNotNL r2 = Some (''com'' @ rest))"
proof
  assume "httpExp_match s = Some (g, rest)"
  then show "\<exists>r2. (g = ''imgs.'' \<or> g = []) \<and> s = ''http://'' @ g @ ''xkcd'' @ r2
        \<and> anyCharNotNL r2 = Some (''com'' @ rest)"
    by (auto simp: httpExp_match_def literal_iff xkcd_com_iff split: option.splits)
next
  assume "\<exists>r2. (g = ''imgs.'' \<or> g = []) \<and> s = ''http://'' @ g @ ''xkcd'' @ r2
        \<and> anyCharNotNL r2 = Some (''com'' @ rest)"
  then obtain r2 where g: "g = ''imgs.'' \<or> g = []" and s: "s = ''http://'' @ g @ ''xkcd'' @ r2"
    and d: "anyCharNotNL r2 = Some (''com'' @ rest)" by blast
  from g show "httpExp_match s = Some (g, rest)"
  proof
    assume "g = ''imgs.''"
    moreover have "xkcd_com (''xkcd'' @ r2) = Some rest" using d by (auto simp: xkcd_com_iff)
    ultimately show ?thesis using s by (simp add: httpExp_match_def)
  next
    assume "g = []"
    moreover have "xkcd_com (''xkcd'' @ r2) = Some rest" using d by (auto simp: xkcd_com_iff)
    ultimately show ?thesis using s by (simp add: httpExp_match_def)
  qed
qed

lemma httpExp_match_not_h: "c \<noteq> CHR ''h'' \<Longrightarrow> httpExp_match (c # cs) = None"
  by (simp add: httpExp_match_def)

lemma httpExp_match_https: "httpExp_match (httpsReplacement g @ t) = None"
  by (simp add: httpExp_match_def httpsReplacement_def)

lemma ReplaceAll_Nil: "httpExp_ReplaceAll [] = []"
  by (subst httpExp_ReplaceAll.simps) (simp add: httpExp_match_def)

lemma ReplaceAll_no_match:
  "httpExp_match (c # cs) = None \<Longrightarrow> httpExp_ReplaceAll (c # cs) = c # httpExp_ReplaceAll cs"
  by (subst httpExp_ReplaceAll.simps) simp

lemma ReplaceAll_match:
  "httpExp_match s = Some (g, rest) \<Longrightarrow>
   httpExp_ReplaceAll s = httpsReplacement g @ httpExp_ReplaceAll rest"
  by (subst httpExp_ReplaceAll.simps) simp

lemma ReplaceAll_prefix:
  "CHR ''h'' \<notin> set p \<Longrightarrow> httpExp_ReplaceAll (p @ r) = p @ httpExp_ReplaceAll r"
proof (induction p)
  case Nil
  then show ?case by simp
next
  case (Cons c p)
  then have "c \<noteq> CHR ''h''" by auto
  then have "httpExp_match (c # p @ r) = None" by (rule httpExp_match_not_h)
  with Cons show ?case by (simp add: ReplaceAll_no_match)
qed

lemma ReplaceAll_Cons_cases:
  assumes "httpExp_ReplaceAll s = c # t"
  shows "(\<exists>s'. s = c # s' \<and> httpExp_ReplaceAll s' = t)
     \<or> (\<exists>g rest. t = ''ttps://'' @ g @ ''xkcd.com'' @ rest)"
proof (cases "httpExp_match s")
  case None
  with assms show ?thesis
    by (cases s) (auto simp: ReplaceAll_Nil ReplaceAll_no_match)
next
  case (Some x)
  obtain g rest where "x = (g, rest)" by (cases x)
  with Some assms show ?thesis
    by (auto simp: ReplaceAll_match httpsReplacement_def)
qed

lemma ReplaceAll_prefix_inv:
  "httpExp_ReplaceAll s = p @ t \<Longrightarrow> CHR ''h'' \<notin> set p \<Longrightarrow>
   \<exists>r. s = p @ r \<and> httpExp_ReplaceAll r = t"
proof (induction p arbitrary: s)
  case Nil
  then show ?case by simp
next
  case (Cons c p)
  from Cons.prems have c: "c \<noteq> CHR ''h''" and p: "CHR ''h'' \<notin> set p" by auto
  have "httpExp_match s = None"
  proof (cases "httpExp_match s")
    case (Some x)
    obtain g rest where "x = (g, rest)" by (cases x)
    with Some Cons.prems(1) c show ?thesis
      by (auto simp: ReplaceAll_match httpsReplacement_def)
  qed simp
  with Cons.prems(1) obtain s' where s: "s = c # s'" "httpExp_ReplaceAll s' = p @ t"
    by (cases s) (auto simp: ReplaceAll_Nil ReplaceAll_no_match)
  from Cons.IH [OF s(2) p] s(1) show ?case by auto
qed

lemma anyCharNotNL_SomeD:
  assumes "anyCharNotNL s = Some r"
  shows "\<exists>c q. s = c # q @ r \<and> c \<noteq> newline \<and> DecodeRune_size s = Suc (length q)
     \<and> (\<forall>x\<in>set q. 0x80 \<le> byte x)"
proof -
  let ?n = "DecodeRune_size s"
  from assms have s: "s \<noteq> []" and nl: "hd s \<noteq> newline" and r: "r = drop ?n s"
    by (auto simp: anyCharNotNL_def split: if_splits)
  have n: "1 \<le> ?n" "?n \<le> length s" using DecodeRune_size_bounds [OF s] by auto
  obtain c t where ct: "s = c # t" using s by (cases s) auto
  let ?q = "take (?n - 1) t"
  have "s = c # ?q @ r"
    using ct r n by (cases ?n) auto
  moreover have "c \<noteq> newline" using nl ct by simp
  moreover have "?n = Suc (length ?q)" using n ct by auto
  moreover have "\<forall>x\<in>set ?q. 0x80 \<le> byte x"
  proof
    fix x assume "x \<in> set ?q"
    then obtain i where i: "i < length ?q" "?q ! i = x" by (auto simp: in_set_conv_nth)
    then have "Suc i < ?n" by auto
    then have "0x80 \<le> byte (s ! Suc i)" by (intro DecodeRune_size_high) auto
    with i ct show "0x80 \<le> byte x" by auto
  qed
  ultimately show ?thesis by blast
qed

lemma anyCharNotNL_SomeI:
  assumes "c \<noteq> newline" and "DecodeRune_size (c # q @ r) = Suc (length q)"
  shows "anyCharNotNL (c # q @ r) = Some r"
  using assms by (simp add: anyCharNotNL_def)

lemma ReplaceAll_keeps_no_match:
  assumes "httpExp_match (CHR ''h'' # httpExp_ReplaceAll cs) = Some (g, rest)"
  shows "\<exists>rest'. httpExp_match (CHR ''h'' # cs) = Some (g, rest')"
proof -
  from assms obtain R2 where g: "g = ''imgs.'' \<or> g = []"
    and e: "CHR ''h'' # httpExp_ReplaceAll cs = ''http://'' @ g @ ''xkcd'' @ R2"
    and d: "anyCharNotNL R2 = Some (''com'' @ rest)"
    unfolding httpExp_match_iff by blast
  from e have e': "httpExp_ReplaceAll cs = (''ttp://'' @ g @ ''xkcd'') @ R2" by simp
  have "CHR ''h'' \<notin> set (''ttp://'' @ g @ ''xkcd'')" using g by auto
  from ReplaceAll_prefix_inv [OF e' this] obtain r2
    where cs: "cs = (''ttp://'' @ g @ ''xkcd'') @ r2" and r2: "httpExp_ReplaceAll r2 = R2"
    by blast
  from anyCharNotNL_SomeD [OF d] obtain c q
    where R2: "R2 = c # q @ ''com'' @ rest" and c: "c \<noteq> newline"
      and n: "DecodeRune_size R2 = Suc (length q)" and q: "\<forall>x\<in>set q. 0x80 \<le> byte x"
    by blast
  have qh: "CHR ''h'' \<notin> set (q @ ''com'')" using q by (auto simp: byte_def)
  from r2 R2 have "httpExp_ReplaceAll r2 = c # (q @ ''com'' @ rest)" by simp
  from ReplaceAll_Cons_cases [OF this]
  have "\<exists>s'. r2 = c # s' \<and> httpExp_ReplaceAll s' = q @ ''com'' @ rest"
  proof
    assume "\<exists>g' rest'. q @ ''com'' @ rest = ''ttps://'' @ g' @ ''xkcd.com'' @ rest'"
    then obtain g' rest' where x: "q @ ''com'' @ rest = ''ttps://'' @ g' @ ''xkcd.com'' @ rest'"
      by blast
    show ?thesis
    proof (cases q)
      case Nil
      with x show ?thesis by simp
    next
      case (Cons a q')
      with x have "a = CHR ''t''" by simp
      with q Cons show ?thesis by (simp add: byte_def)
    qed
  qed
  then obtain s' where s': "r2 = c # s'" "httpExp_ReplaceAll s' = (q @ ''com'') @ rest"
    by auto
  from ReplaceAll_prefix_inv [OF s'(2) qh] obtain r'' where r'': "s' = (q @ ''com'') @ r''"
    by blast
  have "DecodeRune_size (c # q @ CHR ''c'' # (''om'' @ r''))
      = DecodeRune_size (c # q @ CHR ''c'' # (''om'' @ rest))"
    by (rule DecodeRune_size_low_byte) (simp add: byte_def)
  with n R2 have "DecodeRune_size (c # q @ ''com'' @ r'') = Suc (length q)" by simp
  with c have "anyCharNotNL (c # q @ ''com'' @ r'') = Some (''com'' @ r'')"
    by (rule anyCharNotNL_SomeI)
  with s' r'' have "anyCharNotNL r2 = Some (''com'' @ r'')" by simp
  with g cs have "httpExp_match (CHR ''h'' # cs) = Some (g, r'')"
    unfolding httpExp_match_iff by auto
  then show ?thesis by blast
qed

lemma secure_only_ReplaceAll: "secure_only (httpExp_ReplaceAll s)"
proof (induction s rule: httpExp_ReplaceAll.induct)
  case (1 s)
  show ?case
  proof (cases "httpExp_match s")
    case None
    show ?thesis
    proof (cases s)
      case Nil
      then show ?thesis by (simp add: ReplaceAll_Nil)
    next
      case (Cons c cs)
      have ih: "secure_only (httpExp_ReplaceAll cs)" by (rule "1.IH"(1) [OF None Cons])
      have "httpExp_match (c # httpExp_ReplaceAll cs) = None"
      proof (cases "c = CHR ''h''")
        case True
        show ?thesis
        proof (cases "httpExp_match (c # httpExp_ReplaceAll cs)")
          case (Some x)
          obtain g rest where "x = (g, rest)" by (cases x)
          with Some True ReplaceAll_keeps_no_match [of cs g rest] None Cons
          show ?thesis by auto
        qed simp
      next
        case False
        then show ?thesis by (rule httpExp_match_not_h)
      qed
      with ih None Cons show ?thesis by (simp add: ReplaceAll_no_match)
    qed
  next
    case (Some x)
    obtain g rest where x: "x = (g, rest)" by (cases x)
    have ih: "secure_only (httpExp_ReplaceAll rest)" by (rule "1.IH"(2) [OF Some x [symmetric]])
    have g: "g = ''imgs.'' \<or> g = []" using Some x by (auto simp: httpExp_match_iff)
    have tail: "secure_only (p @ httpExp_ReplaceAll rest)" if "CHR ''h'' \<notin> set p" for p
      using that ih
    proof (induction p)
      case Nil
      then show ?case by simp
    next
      case (Cons a p)
      then have "a \<noteq> CHR ''h''" by auto
      then have "httpExp_match (a # p @ httpExp_ReplaceAll rest) = None"
        by (rule httpExp_match_not_h)
      with Cons show ?case by simp
    qed
    have "httpExp_match (httpsReplacement g @ httpExp_ReplaceAll rest) = None"
      by (rule httpExp_match_https)
    moreover have "secure_only ((''ttps://'' @ g @ ''xkcd.com'') @ httpExp_ReplaceAll rest)"
      using g by (intro tail) auto
    ultimately have "secure_only (httpsReplacement g @ httpExp_ReplaceAll rest)"
      by (simp add: httpsReplacement_def)
    with Some x show ?thesis by (simp add: ReplaceAll_match)
  qed
qed

lemma secure_only_fixed: "secure_only s \<Longrightarrow> httpExp_ReplaceAll s = s"
  by (induction s) (simp_all add: ReplaceAll_Nil ReplaceAll_no_match)

lemma ReplaceAll_idem: "httpExp_ReplaceAll (httpExp_ReplaceAll s) = httpExp_ReplaceAll s"
  by (rule secure_only_fixed) (rule secure_only_ReplaceAll)

lemma ReplaceAll_host:
  assumes "g = ''imgs.'' \<or> g = []"
  shows "httpExp_ReplaceAll (''http://'' @ g @ ''xkcd.com'' @ t)
     = ''https://'' @ g @ ''xkcd.com'' @ httpExp_ReplaceAll t"
proof -
  have "anyCharNotNL (''.com'' @ t) = Some (''com'' @ t)"
    by (simp add: anyCharNotNL_def DecodeRune_size_Cons utf8_first_def byte_def)
  then have "httpExp_match (''http://'' @ g @ ''xkcd'' @ (''.com'' @ t)) = Some (g, t)"
    using assms unfolding httpExp_match_iff by blast
  then have "httpExp_ReplaceAll (''http://'' @ g @ ''xkcd'' @ (''.com'' @ t))
      = httpsReplacement g @ httpExp_ReplaceAll t"
    by (rule ReplaceAll_match)
  then show ?thesis by (simp add: httpsReplacement_def)
qed

lemma no_http_secure_only:
  "(\<forall>pre post. s \<noteq> pre @ ''http://'' @ post) \<Longrightarrow> secure_only s"
proof (induction s)
  case Nil
  then show ?case by simp
next
  case (Cons c cs)
  have "httpExp_match (c # cs) = None"
  proof (cases "httpExp_match (c # cs)")
    case (Some x)
    obtain g rest where "x = (g, rest)" by (cases x)
    with Some have "httpExp_match (c # cs) = Some (g, rest)" by simp
    then obtain r2 where "c # cs = ''http://'' @ g @ ''xkcd'' @ r2"
      unfolding httpExp_match_iff by blast
    then have "c # cs = [] @ ''http://'' @ (g @ ''xkcd'' @ r2)" by simp
    with Cons.prems show ?thesis by blast
  qed simp
  moreover have "\<forall>pre post. cs \<noteq> pre @ ''http://'' @ post"
  proof (intro allI notI)
    fix pre post assume "cs = pre @ ''http://'' @ post"
    then have "c # cs = (c # pre) @ ''http://'' @ post" by simp
    with Cons.prems show False by blast
  qed
  ultimately show ?case using Cons.IH by simp
qed

text \<open>
  Claim C7. Bytes without a match of \<open>httpExp\<close>, and so bytes without any
  \<open>http://\<close>, are rewritten to themselves; the result of a rewrite has no match
  left, so that rewriting twice is rewriting once; and a match is rewritten in the
  same way with and without the prefix \<open>imgs.\<close>, which is kept.
\<close>

theorem link_rewriter_idempotent:
  "(secure_only b \<longrightarrow> httpExp_ReplaceAll b = b)
   \<and> ((\<forall>pre post. b \<noteq> pre @ ''http://'' @ post) \<longrightarrow> httpExp_ReplaceAll b = b)
   \<and> httpExp_ReplaceAll (httpExp_ReplaceAll b) = httpExp_ReplaceAll b
   \<and> secure_only (httpExp_ReplaceAll b)
   \<and> httpExp_ReplaceAll (''http://xkcd.com'' @ b) = ''https://xkcd.com'' @ httpExp_ReplaceAll b
   \<and> httpExp_ReplaceAll (''http://imgs.xkcd.com'' @ b)
       = ''https://imgs.xkcd.com'' @ httpExp_ReplaceAll b"
  using secure_only_fixed [of b] no_http_secure_only [of b] ReplaceAll_idem [of b]
    secure_only_ReplaceAll [of b] ReplaceAll_host [of "[]" b] ReplaceAll_host [of "''imgs.''" b]
  by simp

theorem link_rewriter_idempotent_witness:
  "secure_only ''https://xkcd.com/1/ https://imgs.xkcd.com/a.png''
   \<and> httpExp_ReplaceAll ''https://xkcd.com/1/ https://imgs.xkcd.com/a.png''
       = ''https://xkcd.com/1/ https://imgs.xkcd.com/a.png''
   \<and> (\<forall>pre post. ''/a.png'' \<noteq> pre @ ''http://'' @ post)
   \<and> httpExp_ReplaceAll ''/a.png'' = ''/a.png''
   \<and> httpExp_ReplaceAll ''http://imgs.xkcd.com/a.png'' = ''https://imgs.xkcd.com/a.png''
   \<and> httpExp_ReplaceAll ''http://xkcd.com/1/'' = ''https://xkcd.com/1/''"
proof -
  have 1: "secure_only ''https://xkcd.com/1/ https://imgs.xkcd.com/a.png''" by code_simp
  have 2: "secure_only ''/1/''" by code_simp
  have 3: "\<forall>pre post. ''/a.png'' \<noteq> pre @ ''http://'' @ post"
  proof (intro allI notI)
    fix pre post :: string
    assume "''/a.png'' = pre @ ''http://'' @ post"
    then have "length ''/a.png'' = length (pre @ ''http://'' @ post)" by simp
    then show False by simp
  qed
  show ?thesis
    using link_rewriter_idempotent [of "''https://xkcd.com/1/ https://imgs.xkcd.com/a.png''"]
      link_rewriter_idempotent [of "''/a.png''"] link_rewriter_idempotent [of "''/1/''"] 1 2 3
    by simp
qed

end
